theory Spec2Isabelle
  imports Main "HOL-Library.Word" "HOL-Library.Multiset"
begin

section \<open>Go runtime and standard library, as far as the program uses them\<close>

text \<open>
  Strings are byte lists. The Go \<open>int\<close> is taken to be 64 bits wide (a 64-bit platform):
  arithmetic on it wraps around, which \<open>wrap64\<close> writes out on \<open>int\<close>.
\<close>

definition maxInt64 :: int where
  "maxInt64 = 9223372036854775807"

definition wrap64 :: "int \<Rightarrow> int" where
  "wrap64 x = sint (word_of_int x :: 64 word)"

text \<open>Go's integer division truncates towards zero.\<close>

definition go_div :: "int \<Rightarrow> int \<Rightarrow> int" where
  "go_div a b = (if (a < 0) = (b < 0) then \<bar>a\<bar> div \<bar>b\<bar> else - (\<bar>a\<bar> div \<bar>b\<bar>))"

definition is_digit :: "char \<Rightarrow> bool" where
  "is_digit c = (c \<in> set ''0123456789'')"

definition digit_val :: "char \<Rightarrow> nat" where
  "digit_val c = of_char c - 48"

definition digits_value :: "string \<Rightarrow> nat" where
  "digits_value ds = foldl (\<lambda>n c. 10 * n + digit_val c) 0 ds"

text \<open>
  \<open>strconv.Atoi\<close> returns a value and an error. The decimal syntax is an optional sign
  followed by at least one digit. A syntax error comes with the value 0; a value outside
  the 64-bit range is a range error and comes with the nearest bound.
\<close>

datatype NumError = ErrSyntax | ErrRange

definition Atoi :: "string \<Rightarrow> int \<times> NumError option" where
  "Atoi s =
     (let neg = (s \<noteq> [] \<and> hd s = CHR ''-'');
          ds = (if s \<noteq> [] \<and> (hd s = CHR ''-'' \<or> hd s = CHR ''+'') then tl s else s)
      in if ds = [] \<or> \<not> list_all is_digit ds then (0, Some ErrSyntax)
         else if neg then
           (if int (digits_value ds) > maxInt64 + 1 then (- maxInt64 - 1, Some ErrRange)
            else (- int (digits_value ds), None))
         else
           (if int (digits_value ds) > maxInt64 then (maxInt64, Some ErrRange)
            else (int (digits_value ds), None)))"

text \<open>The verb \<open>%d\<close> of \<open>fmt.Sprintf\<close>: the decimal numeral of an integer.\<close>

fun show_nat :: "nat \<Rightarrow> string" where
  "show_nat n =
     (if n < 10 then [''0123456789'' ! n]
      else show_nat (n div 10) @ [''0123456789'' ! (n mod 10)])"

declare show_nat.simps [simp del]

definition show_int :: "int \<Rightarrow> string" where
  "show_int i = (if i < 0 then ''-'' @ show_nat (nat (- i)) else show_nat (nat i))"

text \<open>
  A call either returns a value, returns an error value, or panics (a nil pointer is
  dereferenced). A panic is not an error value: no \<open>if err != nil\<close> sees it, and it
  unwinds through every caller.
\<close>

datatype conv_error =
    InvalidIngressType
  | InvalidSplitMode string
  | FailedToConvertIngress string conv_error

datatype failure = Err conv_error | Panic

type_synonym 'a result = "failure + 'a"

section \<open>Source resource: the fields of networking/v1 Ingress that the program reads\<close>

datatype PathType = PathTypeExact | PathTypePrefix | PathTypeImplementationSpecific

record ServiceBackendPort =
  Number :: "32 word"

record IngressServiceBackend =
  svc_Name :: string
  svc_Port :: ServiceBackendPort

text \<open>\<open>Service\<close> is a pointer: it is nil when the backend is not a service.\<close>

record IngressBackend =
  Service :: "IngressServiceBackend option"

record HTTPIngressPath =
  Path :: string
  PathType :: "PathType option"
  Backend :: IngressBackend

record HTTPIngressRuleValue =
  Paths :: "HTTPIngressPath list"

record IngressRule =
  Host :: string
  HTTP :: "HTTPIngressRuleValue option"

record IngressSpec =
  IngressClassName :: "string option"
  DefaultBackend :: "IngressBackend option"
  ing_Rules :: "IngressRule list"

record Ingress =
  ing_Name :: string
  ing_Namespace :: string
  ing_Labels :: "string \<rightharpoonup> string"
  Annotations :: "string \<rightharpoonup> string"
  ing_Spec :: IngressSpec

section \<open>Target resource: the fields of gateway-api/v1 HTTPRoute that the program writes\<close>

datatype PathMatchType = PathMatchExact | PathMatchPathPrefix

record HTTPPathMatch =
  pm_Type :: "PathMatchType option"
  pm_Value :: "string option"

record HTTPRouteMatch =
  match_Path :: "HTTPPathMatch option"

record HTTPBackendRef =
  ref_Name :: string
  ref_Port :: "32 word option"
  ref_Weight :: "32 word option"

datatype HTTPPathModifierType = FullPathHTTPPathModifier

record HTTPPathModifier =
  mod_Type :: HTTPPathModifierType
  ReplaceFullPath :: "string option"

record HTTPURLRewriteFilter =
  rewrite_Path :: "HTTPPathModifier option"

record HTTPRequestRedirectFilter =
  redirect_Hostname :: "string option"
  StatusCode :: "int option"

datatype HTTPRouteFilterType = HTTPRouteFilterURLRewrite | HTTPRouteFilterRequestRedirect

record HTTPRouteFilter =
  filter_Type :: HTTPRouteFilterType
  URLRewrite :: "HTTPURLRewriteFilter option"
  RequestRedirect :: "HTTPRequestRedirectFilter option"

record HTTPRouteTimeouts =
  Request :: "string option"
  BackendRequest :: "string option"

record HTTPRouteRule =
  Matches :: "HTTPRouteMatch list"
  Filters :: "HTTPRouteFilter list"
  BackendRefs :: "HTTPBackendRef list"
  Timeouts :: "HTTPRouteTimeouts option"

record ParentReference =
  parent_Name :: string

record HTTPRouteSpec =
  Hostnames :: "string list"
  ParentRefs :: "ParentReference list"
  Rules :: "HTTPRouteRule list"

record HTTPRoute =
  APIVersion :: string
  Kind :: string
  Name :: string
  Namespace :: string
  Labels :: "string \<rightharpoonup> string"
  Spec :: HTTPRouteSpec

section \<open>Converter\<close>

record Options =
  SplitMode :: string
  GatewayName :: string
  GatewayClass :: string
  OutputFormat :: string

text \<open>
  The batch is a slice of \<open>interface{}\<close>: an element is a pointer to an Ingress (taken
  to be non-nil) or a value of some other type, on which the type assertion of
  \<open>Convert\<close> fails.
\<close>

datatype item = IngressItem Ingress | OtherItem

subsection \<open>extractFilters, extractTimeouts, createDefaultBackendRule\<close>

definition extractFilters :: "Ingress \<Rightarrow> HTTPRouteFilter list result" where
  "extractFilters ing =
     (let filters = [];
          filters =
            (case Annotations ing ''nginx.ingress.kubernetes.io/rewrite-target'' of
               Some rewriteTarget \<Rightarrow>
                 filters @
                 [\<lparr>filter_Type = HTTPRouteFilterURLRewrite,
                   URLRewrite = Some \<lparr>rewrite_Path =
                     Some \<lparr>mod_Type = FullPathHTTPPathModifier,
                           ReplaceFullPath = Some rewriteTarget\<rparr>\<rparr>,
                   RequestRedirect = None\<rparr>]
             | None \<Rightarrow> filters);
          filters =
            (case Annotations ing ''nginx.ingress.kubernetes.io/permanent-redirect'' of
               Some redirect \<Rightarrow>
                 filters @
                 [\<lparr>filter_Type = HTTPRouteFilterRequestRedirect,
                   URLRewrite = None,
                   RequestRedirect =
                     Some \<lparr>redirect_Hostname = Some redirect, StatusCode = Some 301\<rparr>\<rparr>]
             | None \<Rightarrow> filters)
      in Inr filters)"

definition extractTimeouts :: "Ingress \<Rightarrow> HTTPRouteTimeouts option" where
  "extractTimeouts ing =
     (let timeouts = None;
          timeouts =
            (case Annotations ing ''nginx.ingress.kubernetes.io/proxy-read-timeout'' of
               Some readTimeout \<Rightarrow>
                 (case Atoi readTimeout of
                    (seconds, None) \<Rightarrow>
                      (let duration = show_int seconds @ ''s''
                       in Some \<lparr>Request = Some duration, BackendRequest = Some duration\<rparr>)
                  | (seconds, Some err) \<Rightarrow> timeouts)
             | None \<Rightarrow> timeouts);
          timeouts =
            (case Annotations ing ''nginx.ingress.kubernetes.io/proxy-send-timeout'' of
               Some sendTimeout \<Rightarrow>
                 (case Atoi sendTimeout of
                    (seconds, None) \<Rightarrow>
                      (let duration = show_int seconds @ ''s'';
                           t = (case timeouts of
                                  None \<Rightarrow> \<lparr>Request = None, BackendRequest = None\<rparr>
                                | Some t \<Rightarrow> t);
                           t = (if BackendRequest t = None
                                then t\<lparr>BackendRequest := Some duration\<rparr> else t);
                           t = (if Request t = None
                                then t\<lparr>Request := Some duration\<rparr> else t)
                       in Some t)
                  | (seconds, Some err) \<Rightarrow> timeouts)
             | None \<Rightarrow> timeouts)
      in timeouts)"

text \<open>\<open>backend.Service.Port.Number\<close> dereferences \<open>Service\<close>: a nil pointer panics.\<close>

definition createDefaultBackendRule :: "Ingress \<Rightarrow> IngressBackend \<Rightarrow> HTTPRouteRule result" where
  "createDefaultBackendRule ing backend =
     (case Service backend of
        None \<Rightarrow> Inl Panic
      | Some service \<Rightarrow>
          (let port = Number (svc_Port service);
               weight = 1;
               pathValue = ''/'';
               pathType = PathMatchPathPrefix
           in Inr \<lparr>Matches =
                      [\<lparr>match_Path = Some \<lparr>pm_Type = Some pathType, pm_Value = Some pathValue\<rparr>\<rparr>],
                    Filters = [],
                    BackendRefs =
                      [\<lparr>ref_Name = svc_Name service, ref_Port = Some port,
                        ref_Weight = Some weight\<rparr>],
                    Timeouts = None\<rparr>))"

subsection \<open>convertHTTPRules\<close>

text \<open>The key of the deduplication: \<open>fmt.Sprintf("%s:%s", path.Path, path.Backend.Service.Name)\<close>.\<close>

definition dedupKey :: "string \<Rightarrow> string \<Rightarrow> string" where
  "dedupKey pathValue serviceName = pathValue @ '':'' @ serviceName"

text \<open>The rule that one pass of the loop builds from a path, its service and the filters.\<close>

definition newRule ::
  "Ingress \<Rightarrow> HTTPIngressPath \<Rightarrow> IngressServiceBackend \<Rightarrow> HTTPRouteFilter list \<Rightarrow> HTTPRouteRule"
where
  "newRule ing path service filters =
     (let pathType = (if PathType path = Some PathTypeExact
                      then PathMatchExact else PathMatchPathPrefix);
          pathValue = (if Path path = [] then ''/'' else Path path);
          port = Number (svc_Port service);
          weight = 1
      in \<lparr>Matches =
            [\<lparr>match_Path = Some \<lparr>pm_Type = Some pathType, pm_Value = Some pathValue\<rparr>\<rparr>],
          Filters = filters,
          BackendRefs =
            [\<lparr>ref_Name = svc_Name service, ref_Port = Some port, ref_Weight = Some weight\<rparr>],
          Timeouts = extractTimeouts ing\<rparr>)"

text \<open>
  The loop over the paths carries the map \<open>seen\<close> (the set of keys stored with the value
  true) and the rules built so far. The key is formatted before \<open>seen\<close> is looked up,
  so a path with a nil \<open>Service\<close> panics even where its key would be a duplicate.
\<close>

fun convertHTTPRules_loop ::
  "Ingress \<Rightarrow> string set \<Rightarrow> HTTPRouteRule list \<Rightarrow> HTTPIngressPath list \<Rightarrow> HTTPRouteRule list result"
where
  "convertHTTPRules_loop ing seen rules [] = Inr rules"
| "convertHTTPRules_loop ing seen rules (path # paths) =
     (case Service (Backend path) of
        None \<Rightarrow> Inl Panic
      | Some service \<Rightarrow>
          (let key = dedupKey (Path path) (svc_Name service)
           in if key \<in> seen then convertHTTPRules_loop ing seen rules paths
              else
                (case extractFilters ing of
                   Inl err \<Rightarrow> Inl err
                 | Inr filters \<Rightarrow>
                     convertHTTPRules_loop ing (insert key seen)
                       (rules @ [newRule ing path service filters]) paths)))"

definition convertHTTPRules :: "Ingress \<Rightarrow> HTTPIngressPath list \<Rightarrow> HTTPRouteRule list result" where
  "convertHTTPRules ing paths = convertHTTPRules_loop ing {} [] paths"

subsection \<open>deriveGatewayName, extractHostPattern, sanitizeName\<close>

definition deriveGatewayName :: "Ingress \<Rightarrow> string" where
  "deriveGatewayName ing =
     (case IngressClassName (ing_Spec ing) of
        Some className \<Rightarrow> ''gateway-'' @ className
      | None \<Rightarrow>
          (case Annotations ing ''kubernetes.io/ingress.class'' of
             Some class \<Rightarrow> ''gateway-'' @ class
           | None \<Rightarrow> ''gateway-nginx''))"

text \<open>\<open>strings.Split\<close> with a one-byte separator; the result is never empty.\<close>

fun split_on :: "char \<Rightarrow> string \<Rightarrow> string list" where
  "split_on sep [] = [[]]"
| "split_on sep (c # cs) =
     (if c = sep then [] # split_on sep cs
      else (c # hd (split_on sep cs)) # tl (split_on sep cs))"

definition extractHostPattern :: "string \<Rightarrow> string" where
  "extractHostPattern host =
     (let parts = split_on (CHR ''.'') host
      in if length parts \<ge> 2
         then parts ! (length parts - 2) @ ''.'' @ parts ! (length parts - 1)
         else host)"

text \<open>
  \<open>sanitizeName\<close> on ASCII names: \<open>strings.ToLower\<close>, every byte outside \<open>[a-z0-9-]\<close>
  replaced by a hyphen, hyphens trimmed at both ends, at most 63 bytes kept. (On other
  names Go lowers and replaces rune by rune; hostnames are ASCII.)
\<close>

definition to_lower :: "char \<Rightarrow> char" where
  "to_lower c =
     (if c \<in> set ''ABCDEFGHIJKLMNOPQRSTUVWXYZ''
      then char_of (of_char c + (32::nat)) else c)"

definition sanitizeName :: "string \<Rightarrow> string" where
  "sanitizeName name =
     (let sanitized =
            map (\<lambda>c. if c \<in> set ''abcdefghijklmnopqrstuvwxyz0123456789-'' then c else CHR ''-'')
              (map to_lower name);
          sanitized =
            rev (dropWhile (\<lambda>c. c = CHR ''-'') (rev (dropWhile (\<lambda>c. c = CHR ''-'') sanitized)))
      in if length sanitized > 63 then take 63 sanitized else sanitized)"

subsection \<open>The three split modes\<close>

definition gatewayNameFor :: "Options \<Rightarrow> Ingress \<Rightarrow> string" where
  "gatewayNameFor c ing =
     (if GatewayName c = [] then deriveGatewayName ing else GatewayName c)"

definition newHTTPRoute ::
  "string \<Rightarrow> Ingress \<Rightarrow> string list \<Rightarrow> string \<Rightarrow> HTTPRouteRule list \<Rightarrow> HTTPRoute" where
  "newHTTPRoute name ing hostnames gatewayName rules =
     \<lparr>APIVersion = ''gateway.networking.k8s.io/v1'',
      Kind = ''HTTPRoute'',
      Name = name,
      Namespace = ing_Namespace ing,
      Labels = ing_Labels ing,
      Spec = \<lparr>Hostnames = hostnames,
              ParentRefs = [\<lparr>parent_Name = gatewayName\<rparr>],
              Rules = rules\<rparr>\<rparr>"

text \<open>The loop of \<open>convertSingle\<close> that collects the hostnames.\<close>

fun collectHostnames :: "string list \<Rightarrow> IngressRule list \<Rightarrow> string list" where
  "collectHostnames hostnames [] = hostnames"
| "collectHostnames hostnames (rule # rules) =
     (if Host rule \<noteq> [] then collectHostnames (hostnames @ [Host rule]) rules
      else collectHostnames hostnames rules)"

text \<open>
  The block \<open>if rule.HTTP != nil { rules, err := c.convertHTTPRules(ing, rule.HTTP.Paths) ... }\<close>:
  a source rule without an HTTP block leaves the rule list of the target resource empty.
\<close>

definition convertRulePaths :: "Ingress \<Rightarrow> IngressRule \<Rightarrow> HTTPRouteRule list result" where
  "convertRulePaths ing rule =
     (case HTTP rule of
        Some http \<Rightarrow> convertHTTPRules ing (Paths http)
      | None \<Rightarrow> Inr [])"

text \<open>
  Both \<open>convertSingle\<close> and \<open>convertPerPattern\<close> convert the paths of the first source
  rule only: \<open>len(ing.Spec.Rules) > 0 && ing.Spec.Rules[0].HTTP != nil\<close>.
\<close>

definition convertFirstRule :: "Ingress \<Rightarrow> HTTPRouteRule list result" where
  "convertFirstRule ing =
     (case ing_Rules (ing_Spec ing) of
        [] \<Rightarrow> Inr []
      | rule # rules \<Rightarrow> convertRulePaths ing rule)"

definition convertSingle :: "Options \<Rightarrow> Ingress \<Rightarrow> HTTPRoute list result" where
  "convertSingle c ing =
     (let hostnames = collectHostnames [] (ing_Rules (ing_Spec ing));
          gatewayName = gatewayNameFor c ing
      in case convertFirstRule ing of
           Inl err \<Rightarrow> Inl err
         | Inr rules \<Rightarrow>
             (case (case DefaultBackend (ing_Spec ing) of
                      Some backend \<Rightarrow>
                        (case createDefaultBackendRule ing backend of
                           Inl err \<Rightarrow> Inl err
                         | Inr defaultRule \<Rightarrow> Inr (rules @ [defaultRule]))
                    | None \<Rightarrow> Inr rules)
              of
                Inl err \<Rightarrow> Inl err
              | Inr rules \<Rightarrow>
                  Inr [newHTTPRoute (ing_Name ing @ ''-httproute'') ing hostnames gatewayName
                         rules]))"

fun convertPerHost_loop ::
  "Options \<Rightarrow> Ingress \<Rightarrow> nat \<Rightarrow> HTTPRoute list \<Rightarrow> IngressRule list \<Rightarrow> HTTPRoute list result"
where
  "convertPerHost_loop c ing i httpRoutes [] = Inr httpRoutes"
| "convertPerHost_loop c ing i httpRoutes (rule # rules) =
     (if Host rule = [] then convertPerHost_loop c ing (Suc i) httpRoutes rules
      else
        (let name = ing_Name ing @ ''-httproute-'' @ show_int (int i + 1);
             gatewayName = gatewayNameFor c ing
         in case convertRulePaths ing rule of
              Inl err \<Rightarrow> Inl err
            | Inr rs \<Rightarrow>
                convertPerHost_loop c ing (Suc i)
                  (httpRoutes @ [newHTTPRoute name ing [Host rule] gatewayName rs]) rules))"

definition convertPerHost :: "Options \<Rightarrow> Ingress \<Rightarrow> HTTPRoute list result" where
  "convertPerHost c ing = convertPerHost_loop c ing 0 [] (ing_Rules (ing_Spec ing))"

text \<open>
  \<open>convertPerPattern\<close> first fills the map \<open>groups\<close> from pattern to hosts. The map is an
  association list with distinct keys; \<open>groups_append\<close> is
  \<open>groups[pattern] = append(groups[pattern], host)\<close>.
\<close>

type_synonym host_groups = "(string \<times> string list) list"

fun groups_append :: "string \<Rightarrow> string \<Rightarrow> host_groups \<Rightarrow> host_groups" where
  "groups_append pattern host [] = [(pattern, [host])]"
| "groups_append pattern host ((p, hosts) # groups) =
     (if p = pattern then (p, hosts @ [host]) # groups
      else (p, hosts) # groups_append pattern host groups)"

fun groupHosts :: "host_groups \<Rightarrow> IngressRule list \<Rightarrow> host_groups" where
  "groupHosts groups [] = groups"
| "groupHosts groups (rule # rules) =
     (if Host rule = [] then groupHosts groups rules
      else groupHosts (groups_append (extractHostPattern (Host rule)) (Host rule) groups) rules)"

text \<open>
  Go does not specify the order in which \<open>range\<close> visits a map, and the runtime changes
  it from one loop to the next. The order is therefore an input of the model: a
  \<open>range_order\<close> is what the runtime does to the entries of the map, and any rearrangement
  of them is possible.
\<close>

type_synonym range_order = "host_groups \<Rightarrow> host_groups"

definition rearranges :: "range_order \<Rightarrow> bool" where
  "rearranges ro = (\<forall>groups. mset (ro groups) = mset groups)"

fun convertPerPattern_loop ::
  "Options \<Rightarrow> Ingress \<Rightarrow> HTTPRoute list \<Rightarrow> host_groups \<Rightarrow> HTTPRoute list result"
where
  "convertPerPattern_loop c ing httpRoutes [] = Inr httpRoutes"
| "convertPerPattern_loop c ing httpRoutes ((pattern, hosts) # groups) =
     (let name = ing_Name ing @ ''-httproute-'' @ sanitizeName pattern;
          gatewayName = gatewayNameFor c ing
      in case convertFirstRule ing of
           Inl err \<Rightarrow> Inl err
         | Inr rs \<Rightarrow>
             convertPerPattern_loop c ing
               (httpRoutes @ [newHTTPRoute name ing hosts gatewayName rs]) groups)"

definition convertPerPattern :: "Options \<Rightarrow> range_order \<Rightarrow> Ingress \<Rightarrow> HTTPRoute list result" where
  "convertPerPattern c ro ing =
     convertPerPattern_loop c ing [] (ro (groupHosts [] (ing_Rules (ing_Spec ing))))"

subsection \<open>convertIngress and Convert\<close>

definition convertIngress :: "Options \<Rightarrow> range_order \<Rightarrow> Ingress \<Rightarrow> HTTPRoute list result" where
  "convertIngress c ro ing =
     (if SplitMode c = ''single'' then convertSingle c ing
      else if SplitMode c = ''per-host'' then convertPerHost c ing
      else if SplitMode c = ''per-pattern'' then convertPerPattern c ro ing
      else Inl (Err (InvalidSplitMode (SplitMode c))))"

text \<open>
  The loop of \<open>Convert\<close>. Its argument \<open>ros\<close> gives, for the position of each element of
  the batch, the order the runtime uses while that element is converted.
\<close>

fun Convert_loop ::
  "Options \<Rightarrow> (nat \<Rightarrow> range_order) \<Rightarrow> nat \<Rightarrow> HTTPRoute list \<Rightarrow> item list \<Rightarrow> HTTPRoute list result"
where
  "Convert_loop c ros i httpRoutes [] = Inr httpRoutes"
| "Convert_loop c ros i httpRoutes (OtherItem # ingresses) = Inl (Err InvalidIngressType)"
| "Convert_loop c ros i httpRoutes (IngressItem ingress # ingresses) =
     (case convertIngress c (ros i) ingress of
        Inl Panic \<Rightarrow> Inl Panic
      | Inl (Err err) \<Rightarrow> Inl (Err (FailedToConvertIngress (ing_Name ingress) err))
      | Inr routes \<Rightarrow> Convert_loop c ros (Suc i) (httpRoutes @ routes) ingresses)"

definition Convert :: "Options \<Rightarrow> (nat \<Rightarrow> range_order) \<Rightarrow> item list \<Rightarrow> HTTPRoute list result" where
  "Convert c ros ingresses = Convert_loop c ros 0 [] ingresses"

section \<open>Validator: timeouts\<close>

record ValidationResult =
  ResourceName :: string
  Errors :: "string list"
  Warnings :: "string list"

text \<open>
  Both regular expressions, \<open>^[0-9]+(h|m|s|ms)$\<close> and \<open>^([0-9]+)(h|m|s|ms)$\<close>, accept a
  string exactly when it is a non-empty run of digits followed by one of the four units.
  No unit starts with a digit, so the digits are the longest digit prefix.
\<close>

definition matchDuration :: "string \<Rightarrow> (string \<times> string) option" where
  "matchDuration duration =
     (let digits = takeWhile is_digit duration;
          unit = dropWhile is_digit duration
      in if digits \<noteq> [] \<and> unit \<in> set [''h'', ''m'', ''s'', ''ms'']
         then Some (digits, unit) else None)"

definition isValidDuration :: "string \<Rightarrow> bool" where
  "isValidDuration duration = (matchDuration duration \<noteq> None)"

definition parseDuration :: "string \<Rightarrow> int" where
  "parseDuration duration =
     (case matchDuration duration of
        None \<Rightarrow> 0
      | Some (digits, unit) \<Rightarrow>
          (let value = fst (Atoi digits)
           in if unit = ''h'' then wrap64 (value * 3600)
              else if unit = ''m'' then wrap64 (value * 60)
              else if unit = ''s'' then value
              else if unit = ''ms'' then go_div value 1000
              else 0))"

definition orderingError :: "nat \<Rightarrow> string \<Rightarrow> string \<Rightarrow> string" where
  "orderingError ruleIdx backendRequest request =
     ''rules['' @ show_int (int ruleIdx) @ ''].timeouts.backendRequest ('' @ backendRequest @
     '') must be <= request ('' @ request @ '')''"

definition requestFormatError :: "nat \<Rightarrow> string" where
  "requestFormatError ruleIdx =
     ''rules['' @ show_int (int ruleIdx) @ ''].timeouts.request: invalid duration format''"

definition backendRequestFormatError :: "nat \<Rightarrow> string" where
  "backendRequestFormatError ruleIdx =
     ''rules['' @ show_int (int ruleIdx) @ ''].timeouts.backendRequest: invalid duration format''"

definition validateTimeouts ::
  "HTTPRouteTimeouts \<Rightarrow> nat \<Rightarrow> ValidationResult \<Rightarrow> ValidationResult" where
  "validateTimeouts timeouts ruleIdx result =
     (let result =
            (case (Request timeouts, BackendRequest timeouts) of
               (Some request, Some backendRequest) \<Rightarrow>
                 (let requestSec = parseDuration request;
                      backendSec = parseDuration backendRequest
                  in if requestSec > 0 \<and> backendSec > 0 \<and> backendSec > requestSec
                     then result\<lparr>Errors := Errors result @
                            [orderingError ruleIdx backendRequest request]\<rparr>
                     else result)
             | _ \<Rightarrow> result);
          result =
            (case Request timeouts of
               Some request \<Rightarrow>
                 (if \<not> isValidDuration request
                  then result\<lparr>Errors := Errors result @ [requestFormatError ruleIdx]\<rparr>
                  else result)
             | None \<Rightarrow> result);
          result =
            (case BackendRequest timeouts of
               Some backendRequest \<Rightarrow>
                 (if \<not> isValidDuration backendRequest
                  then result\<lparr>Errors := Errors result @ [backendRequestFormatError ruleIdx]\<rparr>
                  else result)
             | None \<Rightarrow> result)
      in result)"

section \<open>Analyzer: readiness classification\<close>

fun contains :: "string list \<Rightarrow> string \<Rightarrow> bool" where
  "contains [] item = False"
| "contains (s # rest) item = (if s = item then True else contains rest item)"

definition blockers :: "string list" where
  "blockers = [''CUSTOM_SNIPPET'', ''SERVER_SNIPPET'']"

fun assessReadiness_blocked :: "string list \<Rightarrow> string list \<Rightarrow> bool" where
  "assessReadiness_blocked features [] = False"
| "assessReadiness_blocked features (blocker # bs) =
     (if contains features blocker then True else assessReadiness_blocked features bs)"

definition assessReadiness :: "int \<Rightarrow> string list \<Rightarrow> string" where
  "assessReadiness score features =
     (if assessReadiness_blocked features blockers then ''MANUAL_REVIEW_REQUIRED''
      else if score \<le> 10 then ''READY''
      else if score \<le> 25 then ''MOSTLY_READY''
      else ''COMPLEX'')"

section \<open>Notions used to state the properties\<close>

text \<open>A path list whose every entry refers to a service.\<close>

definition paths_have_service :: "HTTPIngressPath list \<Rightarrow> bool" where
  "paths_have_service paths = list_all (\<lambda>path. Service (Backend path) \<noteq> None) paths"

text \<open>A source rule whose paths, if it has an HTTP block, all refer to a service.\<close>

definition rule_ok :: "IngressRule \<Rightarrow> bool" where
  "rule_ok rule =
     (case HTTP rule of None \<Rightarrow> True | Some http \<Rightarrow> paths_have_service (Paths http))"


text \<open>The deduplication key of a path that refers to a service.\<close>

definition path_key :: "HTTPIngressPath \<Rightarrow> string" where
  "path_key path =
     (case Service (Backend path) of
        Some service \<Rightarrow> dedupKey (Path path) (svc_Name service)
      | None \<Rightarrow> [])"

text \<open>The pair that the key stands for: path value and backend service name.\<close>

definition path_pair :: "HTTPIngressPath \<Rightarrow> string \<times> string" where
  "path_pair path =
     (Path path, case Service (Backend path) of Some service \<Rightarrow> svc_Name service | None \<Rightarrow> [])"

text \<open>The non-empty hostnames of the source rules, in source order.\<close>

definition sourceHosts :: "Ingress \<Rightarrow> string list" where
  "sourceHosts ing = filter (\<lambda>host. host \<noteq> []) (map Host (ing_Rules (ing_Spec ing)))"

text \<open>What one pass of the loop of \<open>Convert\<close> makes of one element of the batch.\<close>

definition convertItem :: "Options \<Rightarrow> range_order \<Rightarrow> item \<Rightarrow> HTTPRoute list result" where
  "convertItem c ro it =
     (case it of
        OtherItem \<Rightarrow> Inl (Err InvalidIngressType)
      | IngressItem ingress \<Rightarrow>
          (case convertIngress c ro ingress of
             Inl Panic \<Rightarrow> Inl Panic
           | Inl (Err err) \<Rightarrow> Inl (Err (FailedToConvertIngress (ing_Name ingress) err))
           | Inr routes \<Rightarrow> Inr routes))"

text \<open>The errors that \<open>validateTimeouts\<close> adds to a result.\<close>

definition timeoutErrors :: "HTTPRouteTimeouts \<Rightarrow> nat \<Rightarrow> string list" where
  "timeoutErrors timeouts ruleIdx =
     Errors (validateTimeouts timeouts ruleIdx \<lparr>ResourceName = [], Errors = [], Warnings = []\<rparr>)"

text \<open>
  A valid non-negative number of seconds, as an annotation value: decimal digits, at
  least one, whose value fits the 64-bit \<open>int\<close>.
\<close>

definition valid_seconds :: "string \<Rightarrow> bool" where
  "valid_seconds s = (s \<noteq> [] \<and> list_all is_digit s \<and> int (digits_value s) \<le> maxInt64)"

text \<open>
  Two outcomes of a conversion that differ at most in the order of the target resources:
  the same failure, or the same target resources with the same multiplicities.
\<close>

definition same_up_to_order :: "HTTPRoute list result \<Rightarrow> HTTPRoute list result \<Rightarrow> bool" where
  "same_up_to_order a b =
     (case (a, b) of
        (Inr x, Inr y) \<Rightarrow> mset x = mset y
      | (Inl e, Inl f) \<Rightarrow> e = f
      | _ \<Rightarrow> False)"

text \<open>The target resource that \<open>convertPerPattern\<close> builds for one entry of \<open>groups\<close>.\<close>

definition patternRoute ::
  "Options \<Rightarrow> Ingress \<Rightarrow> HTTPRouteRule list \<Rightarrow> string \<times> string list \<Rightarrow> HTTPRoute" where
  "patternRoute c ing rs entry =
     newHTTPRoute (ing_Name ing @ ''-httproute-'' @ sanitizeName (fst entry)) ing (snd entry)
       (gatewayNameFor c ing) rs"

text \<open>
  The source resources that a split mode converts without a panic: every path that the
  mode examines refers to a service. The single mode examines the paths of the first rule
  and the default backend, the per-host mode the paths of every rule with a hostname, the
  per-pattern mode the paths of the first rule once for every group of hostnames.
\<close>

definition first_rule_ok :: "Ingress \<Rightarrow> bool" where
  "first_rule_ok ing =
     (case ing_Rules (ing_Spec ing) of [] \<Rightarrow> True | rule # rules \<Rightarrow> rule_ok rule)"

definition default_backend_ok :: "Ingress \<Rightarrow> bool" where
  "default_backend_ok ing =
     (case DefaultBackend (ing_Spec ing) of
        None \<Rightarrow> True
      | Some backend \<Rightarrow> Service backend \<noteq> None)"

definition convertible :: "Options \<Rightarrow> Ingress \<Rightarrow> bool" where
  "convertible c ing =
     (if SplitMode c = ''single'' then first_rule_ok ing \<and> default_backend_ok ing
      else if SplitMode c = ''per-host''
        then list_all (\<lambda>rule. Host rule = [] \<or> rule_ok rule) (ing_Rules (ing_Spec ing))
      else if SplitMode c = ''per-pattern'' then sourceHosts ing = [] \<or> first_rule_ok ing
      else False)"

section \<open>Example resources\<close>

text \<open>The fixture of the converter's tests, \<open>createTestIngress\<close>, with its rules as a parameter.\<close>

definition serviceBackend :: "string \<Rightarrow> 32 word \<Rightarrow> IngressBackend" where
  "serviceBackend name port =
     \<lparr>Service = Some \<lparr>svc_Name = name, svc_Port = \<lparr>Number = port\<rparr>\<rparr>\<rparr>"

definition prefixPath :: "string \<Rightarrow> string \<Rightarrow> 32 word \<Rightarrow> HTTPIngressPath" where
  "prefixPath pathValue name port =
     \<lparr>Path = pathValue, PathType = Some PathTypePrefix, Backend = serviceBackend name port\<rparr>"

definition hostRule :: "string \<Rightarrow> HTTPIngressPath list \<Rightarrow> IngressRule" where
  "hostRule host paths = \<lparr>Host = host, HTTP = Some \<lparr>Paths = paths\<rparr>\<rparr>"

definition testIngressWith :: "IngressRule list \<Rightarrow> Ingress" where
  "testIngressWith rules =
     \<lparr>ing_Name = ''test-ingress'', ing_Namespace = ''default'', ing_Labels = Map.empty,
      Annotations = [''nginx.ingress.kubernetes.io/proxy-read-timeout'' \<mapsto> ''600''],
      ing_Spec = \<lparr>IngressClassName = Some ''nginx'', DefaultBackend = None,
                  ing_Rules = rules\<rparr>\<rparr>"

definition testIngress :: Ingress where
  "testIngress =
     testIngressWith
       [hostRule ''app.example.com'' [prefixPath ''/'' ''app-service'' 80],
        hostRule ''api.example.com'' [prefixPath ''/'' ''api-service'' 8080]]"

definition testOptions :: "string \<Rightarrow> Options" where
  "testOptions mode =
     \<lparr>SplitMode = mode, GatewayName = [], GatewayClass = ''nginx'', OutputFormat = ''yaml''\<rparr>"

text \<open>A path whose backend is not a service: the pointer \<open>Service\<close> is nil.\<close>

definition resourcePath :: "string \<Rightarrow> HTTPIngressPath" where
  "resourcePath pathValue =
     \<lparr>Path = pathValue, PathType = Some PathTypePrefix, Backend = \<lparr>Service = None\<rparr>\<rparr>"


text \<open>The fixture with such a path in its first rule.\<close>

definition panickingIngress :: Ingress where
  "panickingIngress =
     testIngressWith [hostRule ''app.example.com'' [resourcePath ''/'']]"

text \<open>The fixture with the same hostname in two rules.\<close>

definition repeatedHostIngress :: Ingress where
  "repeatedHostIngress =
     testIngressWith
       [hostRule ''app.example.com'' [prefixPath ''/'' ''app-service'' 80],
        hostRule ''app.example.com'' [prefixPath ''/api'' ''api-service'' 8080]]"

text \<open>The fixture with hostnames of two patterns, \<open>example.com\<close> and \<open>example.org\<close>.\<close>

definition twoPatternIngress :: Ingress where
  "twoPatternIngress =
     testIngressWith
       [hostRule ''app.example.com'' [prefixPath ''/'' ''app-service'' 80],
        hostRule ''api.example.org'' [prefixPath ''/'' ''api-service'' 8080]]"

text \<open>
  The fixture with a default backend and with the annotations for a rewrite, a redirect
  and both timeouts.
\<close>

definition annotatedIngress :: Ingress where
  "annotatedIngress =
     \<lparr>ing_Name = ''test-ingress'', ing_Namespace = ''default'', ing_Labels = Map.empty,
      Annotations =
        [''nginx.ingress.kubernetes.io/proxy-read-timeout'' \<mapsto> ''600'',
         ''nginx.ingress.kubernetes.io/proxy-send-timeout'' \<mapsto> ''300'',
         ''nginx.ingress.kubernetes.io/rewrite-target'' \<mapsto> ''/$2'',
         ''nginx.ingress.kubernetes.io/permanent-redirect'' \<mapsto> ''new-site.example.com''],
      ing_Spec =
        \<lparr>IngressClassName = Some ''nginx'',
         DefaultBackend = Some (serviceBackend ''fallback-service'' 8080),
         ing_Rules = [hostRule ''app.example.com'' [prefixPath ''/'' ''app-service'' 80]]\<rparr>\<rparr>"

text \<open>
  Two paths with different pairs of path value and service name, \<open>("/a:b", "c")\<close> and
  \<open>("/a", "b:c")\<close>, and the same formatted key \<open>"/a:b:c"\<close>.
\<close>

definition collidingPaths :: "HTTPIngressPath list" where
  "collidingPaths = [prefixPath ''/a:b'' ''c'' 80, prefixPath ''/a'' ''b:c'' 8080]"

text \<open>A path list with two different keys, each of them three times.\<close>

definition repeatedPaths :: "HTTPIngressPath list" where
  "repeatedPaths =
     [prefixPath ''/'' ''app-service'' 80, prefixPath ''/api'' ''api-service'' 8080,
      prefixPath ''/'' ''app-service'' 80, prefixPath ''/api'' ''api-service'' 8080,
      prefixPath ''/api'' ''api-service'' 8080, prefixPath ''/'' ''app-service'' 80]"

definition emptyResult :: ValidationResult where
  "emptyResult = \<lparr>ResourceName = ''default/test'', Errors = [], Warnings = []\<rparr>"

section \<open>Properties of the converter\<close>

subsection \<open>When the loops return\<close>

lemma extractFilters_returns: "\<exists>filters. extractFilters ing = Inr filters"
  by (simp add: extractFilters_def Let_def)

lemma convertHTTPRules_loop_failure:
  "convertHTTPRules_loop ing seen rules paths = Inl e \<Longrightarrow> e = Panic"
proof (induction paths arbitrary: seen rules)
  case Nil
  then show ?case by simp
next
  case (Cons path paths)
  obtain filters where f: "extractFilters ing = Inr filters"
    using extractFilters_returns by blast
  from Cons.prems show ?case
    by (auto simp: f Let_def split: option.splits if_splits dest: Cons.IH)
qed

lemma convertHTTPRules_loop_panics:
  "\<not> paths_have_service paths \<Longrightarrow> convertHTTPRules_loop ing seen rules paths = Inl Panic"
proof (induction paths arbitrary: seen rules)
  case Nil
  then show ?case by (simp add: paths_have_service_def)
next
  case (Cons path paths)
  obtain filters where f: "extractFilters ing = Inr filters"
    using extractFilters_returns by blast
  show ?case
  proof (cases "Service (Backend path)")
    case None
    then show ?thesis by simp
  next
    case (Some service)
    with Cons.prems have "\<not> paths_have_service paths"
      by (simp add: paths_have_service_def)
    then show ?thesis
      using Some by (simp add: f Let_def Cons.IH)
  qed
qed

lemma convertHTTPRules_loop_returns:
  "paths_have_service paths \<Longrightarrow>
   \<exists>rs. convertHTTPRules_loop ing seen rules paths = Inr (rules @ rs) \<and>
        length rs = card (path_key ` set paths - seen)"
proof (induction paths arbitrary: seen rules)
  case Nil
  then show ?case by simp
next
  case (Cons path paths)
  obtain filters where f: "extractFilters ing = Inr filters"
    using extractFilters_returns by blast
  from Cons.prems obtain service where s: "Service (Backend path) = Some service"
    and rest: "paths_have_service paths"
    by (auto simp: paths_have_service_def)
  have k: "dedupKey (Path path) (svc_Name service) = path_key path"
    by (simp add: path_key_def s)
  show ?case
  proof (cases "path_key path \<in> seen")
    case True
    then have "path_key ` set (path # paths) - seen = path_key ` set paths - seen"
      by auto
    with Cons.IH [OF rest, of seen rules] True show ?thesis
      using s k by (simp add: Let_def)
  next
    case False
    let ?seen = "insert (path_key path) seen"
    let ?r = "newRule ing path service filters"
    have fin: "finite (path_key ` set paths - ?seen)" by simp
    have "path_key ` set (path # paths) - seen = insert (path_key path) (path_key ` set paths - ?seen)"
      using False by auto
    moreover have "path_key path \<notin> path_key ` set paths - ?seen" by simp
    ultimately have c: "card (path_key ` set (path # paths) - seen) = Suc (card (path_key ` set paths - ?seen))"
      using fin by (simp del: image_insert)
    have step: "convertHTTPRules_loop ing seen rules (path # paths) =
            convertHTTPRules_loop ing ?seen (rules @ [?r]) paths"
      using False by (simp add: s k f Let_def)
    from Cons.IH [OF rest, of ?seen "rules @ [?r]"] obtain rs where
      "convertHTTPRules_loop ing ?seen (rules @ [?r]) paths = Inr ((rules @ [?r]) @ rs)"
      "length rs = card (path_key ` set paths - ?seen)" by blast
    with step c have "convertHTTPRules_loop ing seen rules (path # paths) = Inr (rules @ (?r # rs)) \<and>
        length (?r # rs) = card (path_key ` set (path # paths) - seen)"
      by simp
    then show ?thesis ..
  qed
qed

lemma convertHTTPRules_failure: "convertHTTPRules ing paths = Inl e \<Longrightarrow> e = Panic"
  unfolding convertHTTPRules_def by (rule convertHTTPRules_loop_failure)

lemma convertHTTPRules_panics:
  "\<not> paths_have_service paths \<Longrightarrow> convertHTTPRules ing paths = Inl Panic"
  unfolding convertHTTPRules_def by (rule convertHTTPRules_loop_panics)

lemma convertHTTPRules_returns:
  assumes "paths_have_service paths"
  shows "\<exists>rs. convertHTTPRules ing paths = Inr rs \<and> length rs = card (path_key ` set paths)"
  using convertHTTPRules_loop_returns [OF assms, of ing "{}" "[]"]
  by (simp add: convertHTTPRules_def)

lemma convertHTTPRules_returns_iff:
  "(\<exists>rs. convertHTTPRules ing paths = Inr rs) \<longleftrightarrow> paths_have_service paths"
proof (cases "paths_have_service paths")
  case True
  then show ?thesis using convertHTTPRules_returns [of paths ing] by blast
next
  case False
  then show ?thesis using convertHTTPRules_panics [of paths ing] by simp
qed

lemma convertRulePaths_failure: "convertRulePaths ing rule = Inl e \<Longrightarrow> e = Panic"
  by (auto simp: convertRulePaths_def split: option.splits dest: convertHTTPRules_failure)

lemma convertRulePaths_returns_iff:
  "(\<exists>rs. convertRulePaths ing rule = Inr rs) \<longleftrightarrow> rule_ok rule"
  by (simp add: convertRulePaths_def rule_ok_def convertHTTPRules_returns_iff split: option.splits)

lemma convertFirstRule_failure: "convertFirstRule ing = Inl e \<Longrightarrow> e = Panic"
  by (auto simp: convertFirstRule_def split: list.splits dest: convertRulePaths_failure)

lemma collectHostnames_eq:
  "collectHostnames hostnames rules = hostnames @ filter (\<lambda>host. host \<noteq> []) (map Host rules)"
  by (induction rules arbitrary: hostnames) auto

lemma convertPerHost_loop_failure:
  "convertPerHost_loop c ing i httpRoutes rules = Inl e \<Longrightarrow> e = Panic"
proof (induction rules arbitrary: i httpRoutes)
  case Nil
  then show ?case by simp
next
  case (Cons rule rules)
  from Cons.prems show ?case
    by (auto simp: Let_def split: if_splits sum.splits
        dest: Cons.IH convertRulePaths_failure)
qed

lemma convertPerHost_loop_length:
  "convertPerHost_loop c ing i httpRoutes rules = Inr out \<Longrightarrow>
   length out = length httpRoutes + length (filter (\<lambda>host. host \<noteq> []) (map Host rules))"
proof (induction rules arbitrary: i httpRoutes)
  case Nil
  then show ?case by simp
next
  case (Cons rule rules)
  from Cons.prems show ?case
    by (auto simp: Let_def split: if_splits sum.splits dest!: Cons.IH)
qed

lemma convertPerHost_loop_returns:
  "list_all (\<lambda>rule. Host rule = [] \<or> rule_ok rule) rules \<Longrightarrow>
   \<exists>out. convertPerHost_loop c ing i httpRoutes rules = Inr out"
proof (induction rules arbitrary: i httpRoutes)
  case Nil
  then show ?case by simp
next
  case (Cons rule rules)
  then have rest: "list_all (\<lambda>rule. Host rule = [] \<or> rule_ok rule) rules" by simp
  show ?case
  proof (cases "Host rule = []")
    case True
    then show ?thesis using Cons.IH [OF rest] by simp
  next
    case False
    with Cons.prems have "rule_ok rule" by simp
    then obtain rs where "convertRulePaths ing rule = Inr rs"
      using convertRulePaths_returns_iff by blast
    then show ?thesis
      using False Cons.IH [OF rest] by (simp add: Let_def)
  qed
qed

lemma convertPerHost_loop_panics:
  "\<not> list_all (\<lambda>rule. Host rule = [] \<or> rule_ok rule) rules \<Longrightarrow>
   convertPerHost_loop c ing i httpRoutes rules = Inl Panic"
proof (induction rules arbitrary: i httpRoutes)
  case Nil
  then show ?case by simp
next
  case (Cons rule rules)
  show ?case
  proof (cases "Host rule = [] \<or> rule_ok rule")
    case True
    with Cons.prems have rest: "\<not> list_all (\<lambda>rule. Host rule = [] \<or> rule_ok rule) rules"
      by simp
    show ?thesis
    proof (cases "Host rule = []")
      case True
      then show ?thesis using Cons.IH [OF rest] by simp
    next
      case False
      with True have "rule_ok rule" by simp
      then obtain rs where "convertRulePaths ing rule = Inr rs"
        using convertRulePaths_returns_iff by blast
      then show ?thesis
        using False Cons.IH [OF rest] by (simp add: Let_def)
    qed
  next
    case False
    then have "\<not> (\<exists>rs. convertRulePaths ing rule = Inr rs)"
      using convertRulePaths_returns_iff by blast
    then obtain e where "convertRulePaths ing rule = Inl e"
      by (cases "convertRulePaths ing rule") auto
    moreover from this have "e = Panic" by (rule convertRulePaths_failure)
    ultimately show ?thesis using False by (simp add: Let_def)
  qed
qed

subsection \<open>The groups of the pattern mode\<close>

lemma map_fst_groups_append:
  "map fst (groups_append pattern host groups) =
     (if pattern \<in> set (map fst groups) then map fst groups else map fst groups @ [pattern])"
  by (induction groups) force+

lemma groupHosts_keys:
  "distinct (map fst groups) \<Longrightarrow>
   distinct (map fst (groupHosts groups rules)) \<and>
   set (map fst (groupHosts groups rules)) =
     set (map fst groups) \<union> extractHostPattern ` set (filter (\<lambda>host. host \<noteq> []) (map Host rules))"
proof (induction rules arbitrary: groups)
  case Nil
  then show ?case by simp
next
  case (Cons rule rules)
  show ?case
  proof (cases "Host rule = []")
    case True
    then show ?thesis using Cons.IH [OF Cons.prems] by simp
  next
    case False
    let ?g = "groups_append (extractHostPattern (Host rule)) (Host rule) groups"
    have d: "distinct (map fst ?g)"
      using Cons.prems by (simp add: map_fst_groups_append)
    have s: "set (map fst ?g) = insert (extractHostPattern (Host rule)) (set (map fst groups))"
      by (auto simp: map_fst_groups_append)
    from Cons.IH [OF d] False s show ?thesis by auto
  qed
qed

lemma length_groupHosts:
  "length (groupHosts [] (ing_Rules (ing_Spec ing))) = card (extractHostPattern ` set (sourceHosts ing))"
proof -
  let ?g = "groupHosts [] (ing_Rules (ing_Spec ing))"
  have "distinct (map fst ?g)" and "set (map fst ?g) = extractHostPattern ` set (sourceHosts ing)"
    using groupHosts_keys [of "[]" "ing_Rules (ing_Spec ing)"] by (simp_all add: sourceHosts_def)
  then have "card (extractHostPattern ` set (sourceHosts ing)) = length (map fst ?g)"
    using distinct_card by metis
  then show ?thesis by simp
qed

lemma convertPerPattern_loop_eq:
  "convertPerPattern_loop c ing httpRoutes groups =
     (if groups = [] then Inr httpRoutes
      else case convertFirstRule ing of
             Inl err \<Rightarrow> Inl err
           | Inr rs \<Rightarrow> Inr (httpRoutes @ map (patternRoute c ing rs) groups))"
proof (induction groups arbitrary: httpRoutes)
  case Nil
  then show ?case by simp
next
  case (Cons entry groups)
  obtain pattern hosts where e: "entry = (pattern, hosts)" by (cases entry)
  show ?case
    by (cases "convertFirstRule ing") (simp_all add: e Let_def Cons.IH patternRoute_def)
qed

lemma rearranges_Nil_iff: "rearranges ro \<Longrightarrow> ro groups = [] \<longleftrightarrow> groups = []"
  unfolding rearranges_def by (metis mset_zero_iff)

lemma rearranges_length: "rearranges ro \<Longrightarrow> length (ro groups) = length groups"
  unfolding rearranges_def by (metis size_mset)

lemma convertPerPattern_eq:
  "convertPerPattern c ro ing =
     (let groups = ro (groupHosts [] (ing_Rules (ing_Spec ing)))
      in if groups = [] then Inr []
         else case convertFirstRule ing of
                Inl err \<Rightarrow> Inl err
              | Inr rs \<Rightarrow> Inr (map (patternRoute c ing rs) groups))"
  by (cases "convertFirstRule ing")
    (simp_all add: convertPerPattern_def convertPerPattern_loop_eq Let_def)

lemma convertPerPattern_same_up_to_order:
  assumes "rearranges ro" and "rearranges ro'"
  shows "same_up_to_order (convertPerPattern c ro ing) (convertPerPattern c ro' ing)"
proof -
  let ?g = "groupHosts [] (ing_Rules (ing_Spec ing))"
  have m: "mset (ro ?g) = mset (ro' ?g)"
    using assms by (simp add: rearranges_def)
  have n: "ro ?g = [] \<longleftrightarrow> ro' ?g = []"
    using assms by (simp add: rearranges_Nil_iff)
  have "mset (map f (ro ?g)) = mset (map f (ro' ?g))" for f :: "string \<times> string list \<Rightarrow> HTTPRoute"
    using m by (metis mset_map)
  then show ?thesis
    using n by (auto simp: convertPerPattern_eq same_up_to_order_def Let_def split: sum.splits)
qed

lemma convertIngress_same_up_to_order:
  assumes "rearranges ro" and "rearranges ro'"
  shows "same_up_to_order (convertIngress c ro ing) (convertIngress c ro' ing)"
proof -
  have refl: "same_up_to_order r r" for r
    by (auto simp: same_up_to_order_def split: sum.splits)
  show ?thesis
    using convertPerPattern_same_up_to_order [OF assms] refl
    by (simp add: convertIngress_def)
qed

lemma convertItem_same_up_to_order:
  assumes "rearranges ro" and "rearranges ro'"
  shows "same_up_to_order (convertItem c ro it) (convertItem c ro' it)"
proof (cases it)
  case OtherItem
  then show ?thesis by (simp add: convertItem_def same_up_to_order_def)
next
  case (IngressItem ingress)
  from convertIngress_same_up_to_order [OF assms, of c ingress] show ?thesis
    by (auto simp: IngressItem convertItem_def same_up_to_order_def
        split: sum.splits failure.splits)
qed

lemma Convert_loop_step:
  "Convert_loop c ros i httpRoutes (it # ingresses) =
     (case convertItem c (ros i) it of
        Inl f \<Rightarrow> Inl f
      | Inr routes \<Rightarrow> Convert_loop c ros (Suc i) (httpRoutes @ routes) ingresses)"
  by (cases it) (auto simp: convertItem_def split: sum.splits failure.splits)

lemma Convert_loop_same_up_to_order:
  assumes "\<forall>k. rearranges (ros k)" and "\<forall>k. rearranges (ros' k)" and "mset acc = mset acc'"
  shows "same_up_to_order (Convert_loop c ros i acc items) (Convert_loop c ros' i acc' items)"
  using assms(3)
proof (induction items arbitrary: i acc acc')
  case Nil
  then show ?case by (simp add: same_up_to_order_def)
next
  case (Cons it items)
  have r: "rearranges (ros i)" "rearranges (ros' i)" using assms by simp_all
  from convertItem_same_up_to_order [OF r, of c it] show ?case
  proof (cases "convertItem c (ros i) it")
    case (Inl f)
    with convertItem_same_up_to_order [OF r, of c it]
    have "convertItem c (ros' i) it = Inl f"
      by (auto simp: same_up_to_order_def split: sum.splits)
    with Inl show ?thesis
      by (simp add: Convert_loop_step same_up_to_order_def del: Convert_loop.simps)
  next
    case (Inr routes)
    with convertItem_same_up_to_order [OF r, of c it]
    obtain routes' where r': "convertItem c (ros' i) it = Inr routes'" and m: "mset routes = mset routes'"
      by (auto simp: same_up_to_order_def split: sum.splits)
    have "mset (acc @ routes) = mset (acc' @ routes')"
      using Cons.prems m by simp
    from Cons.IH [OF this] show ?thesis
      by (simp add: Convert_loop_step Inr r' del: Convert_loop.simps)
  qed
qed

lemma Convert_loop_returns:
  "list_all2 (\<lambda>(k, it) routes. convertItem c (ros k) it = Inr routes) (List.enumerate i items) outs \<Longrightarrow>
   Convert_loop c ros i acc items = Inr (acc @ concat outs)"
proof (induction items arbitrary: i acc outs)
  case Nil
  then show ?case by simp
next
  case (Cons it items)
  from Cons.prems obtain routes outs' where o: "outs = routes # outs'"
    and h: "convertItem c (ros i) it = Inr routes"
    and t: "list_all2 (\<lambda>(k, it) routes. convertItem c (ros k) it = Inr routes)
              (List.enumerate (Suc i) items) outs'"
    by (auto simp: list_all2_Cons1)
  from Cons.IH [OF t, of "acc @ routes"] show ?case
    by (simp add: Convert_loop_step h o del: Convert_loop.simps)
qed

lemma Convert_loop_fails:
  "list_all2 (\<lambda>(k, it) routes. convertItem c (ros k) it = Inr routes) (List.enumerate i pre) outs \<Longrightarrow>
   convertItem c (ros (i + length pre)) it = Inl f \<Longrightarrow>
   Convert_loop c ros i acc (pre @ it # post) = Inl f"
proof (induction pre arbitrary: i acc outs)
  case Nil
  then show ?case by (simp add: Convert_loop_step del: Convert_loop.simps)
next
  case (Cons p pre)
  from Cons.prems(1) obtain routes outs' where h: "convertItem c (ros i) p = Inr routes"
    and t: "list_all2 (\<lambda>(k, it) routes. convertItem c (ros k) it = Inr routes)
              (List.enumerate (Suc i) pre) outs'"
    by (auto simp: list_all2_Cons1)
  from Cons.prems(2) have "convertItem c (ros (Suc i + length pre)) it = Inl f" by simp
  from Cons.IH [OF t this, of "acc @ routes"] show ?case
    by (simp add: Convert_loop_step h del: Convert_loop.simps)
qed

subsection \<open>When the split modes return\<close>

lemma convertFirstRule_returns_iff:
  "(\<exists>rs. convertFirstRule ing = Inr rs) \<longleftrightarrow> first_rule_ok ing"
  by (simp add: convertFirstRule_def first_rule_ok_def convertRulePaths_returns_iff
      split: list.splits)

lemma convertFirstRule_panics: "\<not> first_rule_ok ing \<Longrightarrow> convertFirstRule ing = Inl Panic"
proof -
  assume "\<not> first_rule_ok ing"
  then have "\<not> (\<exists>rs. convertFirstRule ing = Inr rs)"
    by (simp add: convertFirstRule_returns_iff)
  then obtain e where e: "convertFirstRule ing = Inl e"
    by (cases "convertFirstRule ing") auto
  then have "e = Panic" by (rule convertFirstRule_failure)
  with e show ?thesis by simp
qed

lemma convertSingle_failure: "convertSingle c ing = Inl e \<Longrightarrow> e = Panic"
  by (auto simp: convertSingle_def createDefaultBackendRule_def Let_def
      split: sum.splits option.splits dest: convertFirstRule_failure)

lemma convertSingle_returns:
  assumes "first_rule_ok ing" and "default_backend_ok ing"
  shows "\<exists>hostRules rules.
           convertFirstRule ing = Inr hostRules \<and>
           convertSingle c ing =
             Inr [newHTTPRoute (ing_Name ing @ ''-httproute'') ing (sourceHosts ing)
                    (gatewayNameFor c ing) rules] \<and>
           (case DefaultBackend (ing_Spec ing) of
              None \<Rightarrow> rules = hostRules
            | Some backend \<Rightarrow>
                (\<exists>defaultRule. createDefaultBackendRule ing backend = Inr defaultRule \<and>
                   rules = hostRules @ [defaultRule]))"
proof -
  from assms(1) obtain hostRules where h: "convertFirstRule ing = Inr hostRules"
    using convertFirstRule_returns_iff by blast
  have hosts: "collectHostnames [] (ing_Rules (ing_Spec ing)) = sourceHosts ing"
    by (simp add: collectHostnames_eq sourceHosts_def)
  show ?thesis
  proof (cases "DefaultBackend (ing_Spec ing)")
    case None
    then show ?thesis
      by (simp add: convertSingle_def h hosts Let_def)
  next
    case (Some backend)
    with assms(2) obtain service where s: "Service backend = Some service"
      by (auto simp: default_backend_ok_def)
    then obtain defaultRule where d: "createDefaultBackendRule ing backend = Inr defaultRule"
      by (simp add: createDefaultBackendRule_def Let_def)
    show ?thesis
      by (simp add: convertSingle_def h hosts Let_def Some d)
  qed
qed

lemma convertSingle_panics:
  assumes "\<not> (first_rule_ok ing \<and> default_backend_ok ing)"
  shows "convertSingle c ing = Inl Panic"
proof (cases "first_rule_ok ing")
  case False
  then show ?thesis
    by (simp add: convertSingle_def convertFirstRule_panics Let_def)
next
  case True
  with assms have "\<not> default_backend_ok ing" by simp
  then obtain backend where "DefaultBackend (ing_Spec ing) = Some backend" "Service backend = None"
    by (auto simp: default_backend_ok_def split: option.splits)
  then show ?thesis
    by (simp add: convertSingle_def createDefaultBackendRule_def Let_def split: sum.splits)
      (auto dest: convertFirstRule_failure)
qed

lemma convertPerHost_failure: "convertPerHost c ing = Inl e \<Longrightarrow> e = Panic"
  unfolding convertPerHost_def by (rule convertPerHost_loop_failure)

lemma convertPerPattern_failure: "convertPerPattern c ro ing = Inl e \<Longrightarrow> e = Panic"
  by (auto simp: convertPerPattern_eq Let_def split: if_splits sum.splits
      dest: convertFirstRule_failure)

lemma convertIngress_failure:
  "convertIngress c ro ing = Inl f \<Longrightarrow>
   f = Panic \<or>
   (f = Err (InvalidSplitMode (SplitMode c)) \<and>
    SplitMode c \<notin> {''single'', ''per-host'', ''per-pattern''})"
  by (auto simp: convertIngress_def split: if_splits
      dest: convertSingle_failure convertPerHost_failure convertPerPattern_failure)

lemma convertSingle_returns_iff:
  "(\<exists>routes. convertSingle c ing = Inr routes) \<longleftrightarrow> first_rule_ok ing \<and> default_backend_ok ing"
proof (cases "first_rule_ok ing \<and> default_backend_ok ing")
  case True
  then show ?thesis using convertSingle_returns [of ing c] by blast
next
  case False
  then show ?thesis using convertSingle_panics [of ing c] by simp
qed

lemma convertPerHost_returns_iff:
  "(\<exists>routes. convertPerHost c ing = Inr routes) \<longleftrightarrow>
     list_all (\<lambda>rule. Host rule = [] \<or> rule_ok rule) (ing_Rules (ing_Spec ing))"
proof (cases "list_all (\<lambda>rule. Host rule = [] \<or> rule_ok rule) (ing_Rules (ing_Spec ing))")
  case True
  then show ?thesis
    using convertPerHost_loop_returns [of "ing_Rules (ing_Spec ing)" c ing 0 "[]"]
    by (simp add: convertPerHost_def)
next
  case False
  then show ?thesis
    using convertPerHost_loop_panics [of "ing_Rules (ing_Spec ing)" c ing 0 "[]"]
    by (simp add: convertPerHost_def)
qed

lemma groupHosts_Nil_iff:
  "groupHosts [] (ing_Rules (ing_Spec ing)) = [] \<longleftrightarrow> sourceHosts ing = []"
proof -
  have "length (groupHosts [] (ing_Rules (ing_Spec ing))) = 0 \<longleftrightarrow> sourceHosts ing = []"
    by (simp add: length_groupHosts)
  then show ?thesis by simp
qed

lemma convertPerPattern_returns_iff:
  assumes "rearranges ro"
  shows "(\<exists>routes. convertPerPattern c ro ing = Inr routes) \<longleftrightarrow>
     sourceHosts ing = [] \<or> first_rule_ok ing"
proof (cases "sourceHosts ing = []")
  case True
  then have "ro (groupHosts [] (ing_Rules (ing_Spec ing))) = []"
    using rearranges_Nil_iff [OF assms] groupHosts_Nil_iff by simp
  then show ?thesis using True by (simp add: convertPerPattern_eq)
next
  case False
  then have n: "ro (groupHosts [] (ing_Rules (ing_Spec ing))) \<noteq> []"
    using rearranges_Nil_iff [OF assms] groupHosts_Nil_iff by simp
  show ?thesis
  proof (cases "convertFirstRule ing")
    case (Inl e)
    then have "\<not> first_rule_ok ing"
      using convertFirstRule_returns_iff [of ing] by simp
    then show ?thesis using False n Inl by (simp add: convertPerPattern_eq)
  next
    case (Inr rs)
    then have "first_rule_ok ing"
      using convertFirstRule_returns_iff [of ing] by blast
    then show ?thesis using n Inr by (simp add: convertPerPattern_eq)
  qed
qed

lemma convertIngress_returns_iff:
  assumes "rearranges ro"
  shows "(\<exists>routes. convertIngress c ro ing = Inr routes) \<longleftrightarrow> convertible c ing"
  by (simp add: convertIngress_def convertible_def convertSingle_returns_iff
      convertPerHost_returns_iff convertPerPattern_returns_iff [OF assms])

subsection \<open>The order of a range over a map\<close>

lemma rearranges_id: "rearranges id"
  by (simp add: rearranges_def)

lemma rearranges_rev: "rearranges rev"
  by (simp add: rearranges_def)

subsection \<open>Batches\<close>

lemma Convert_loop_order_irrelevant:
  "SplitMode c \<noteq> ''per-pattern'' \<Longrightarrow>
   Convert_loop c ros i acc items = Convert_loop c ros' i acc items"
proof (induction items arbitrary: i acc)
  case Nil
  then show ?case by simp
next
  case (Cons it items)
  then have "convertItem c (ros i) it = convertItem c (ros' i) it"
    by (cases it) (simp_all add: convertItem_def convertIngress_def)
  then show ?case
    using Cons.IH [OF Cons.prems]
    by (simp add: Convert_loop_step del: Convert_loop.simps split: sum.splits)
qed

text \<open>
  Claim C1, as the code has it. \<open>Convert\<close> is all or nothing on a batch. When every
  element converts, it returns the target resources of all elements, concatenated in
  batch order. When the elements \<open>pre\<close> convert and the next element fails, it returns
  that one failure for the whole call, whatever follows in the batch, and no target
  resource of any element.
\<close>

theorem Convert_stops_at_first_failure:
  "(list_all2 (\<lambda>(k, it) routes. convertItem c (ros k) it = Inr routes) (List.enumerate 0 items) outs \<longrightarrow>
      Convert c ros items = Inr (concat outs)) \<and>
   (list_all2 (\<lambda>(k, it) routes. convertItem c (ros k) it = Inr routes) (List.enumerate 0 pre) before \<and>
    convertItem c (ros (length pre)) it = Inl f \<longrightarrow>
      Convert c ros (pre @ it # post) = Inl f)"
  using Convert_loop_returns [of c ros 0 items outs "[]"]
    Convert_loop_fails [of c ros 0 pre before it f "[]" post]
  by (simp add: Convert_def)

theorem Convert_stops_at_first_failure_witness:
  "(\<exists>routes.
      convertItem (testOptions ''single'') id (IngressItem testIngress) = Inr routes \<and>
      convertItem (testOptions ''single'') id OtherItem = Inl (Err InvalidIngressType) \<and>
      Convert (testOptions ''single'') (\<lambda>k. id) [IngressItem testIngress, IngressItem testIngress] =
        Inr (routes @ routes) \<and>
      Convert (testOptions ''single'') (\<lambda>k. id)
        [IngressItem testIngress, OtherItem, IngressItem testIngress] =
        Inl (Err InvalidIngressType))"
proof -
  have "\<not> isl (convertItem (testOptions ''single'') id (IngressItem testIngress))"
    by code_simp
  then obtain routes where
    r: "convertItem (testOptions ''single'') id (IngressItem testIngress) = Inr routes"
    by (cases "convertItem (testOptions ''single'') id (IngressItem testIngress)") auto
  have o: "convertItem (testOptions ''single'') id OtherItem = Inl (Err InvalidIngressType)"
    by (simp add: convertItem_def)
  from Convert_stops_at_first_failure [of "testOptions ''single''" "\<lambda>k. id"
      "[IngressItem testIngress, IngressItem testIngress]" "[routes, routes]"
      "[IngressItem testIngress]" "[routes]" OtherItem "Err InvalidIngressType"
      "[IngressItem testIngress]"]
  show ?thesis
    using r o by simp
qed

text \<open>
  The fixture alone converts. In a batch with an element that is not an Ingress, or with an
  Ingress whose first path has no service, the call returns the error or panics, and the
  target resource of the fixture is lost.
\<close>

theorem Convert_stops_at_first_failure_counterexample:
  "map_sum id (map Name) (Convert (testOptions ''single'') (\<lambda>k. id) [IngressItem testIngress]) =
     Inr [''test-ingress-httproute''] \<and>
   map_sum id (map Name)
     (Convert (testOptions ''single'') (\<lambda>k. id) [IngressItem testIngress, OtherItem]) =
     Inl (Err InvalidIngressType) \<and>
   map_sum id (map Name)
     (Convert (testOptions ''single'') (\<lambda>k. id)
        [IngressItem testIngress, IngressItem panickingIngress]) =
     Inl Panic"
  by code_simp




text \<open>
  Claim C3, as the code has it. In the single and the per-host mode the result of
  \<open>Convert\<close> does not depend on the order in which the runtime visits maps. In the
  per-pattern mode two calls, whatever orders the runtime uses, end alike: in the same
  failure, or with the same target resources (each with its hostnames and rules in the
  same order) in lists that may be ordered differently.
\<close>

theorem Convert_same_up_to_order:
  "(SplitMode c \<noteq> ''per-pattern'' \<longrightarrow> Convert c ros items = Convert c ros' items) \<and>
   ((\<forall>k. rearranges (ros k)) \<and> (\<forall>k. rearranges (ros' k)) \<longrightarrow>
      same_up_to_order (Convert c ros items) (Convert c ros' items))"
  using Convert_loop_order_irrelevant [of c ros 0 "[]" items ros']
    Convert_loop_same_up_to_order [of ros ros' "[]" "[]" c 0 items]
  by (simp add: Convert_def)

theorem Convert_same_up_to_order_witness:
  "SplitMode (testOptions ''per-host'') \<noteq> ''per-pattern'' \<and>
   (\<forall>k::nat. rearranges id) \<and> (\<forall>k::nat. rearranges rev) \<and>
   Convert (testOptions ''per-host'') (\<lambda>k. id) [IngressItem twoPatternIngress] =
     Convert (testOptions ''per-host'') (\<lambda>k. rev) [IngressItem twoPatternIngress] \<and>
   same_up_to_order
     (Convert (testOptions ''per-pattern'') (\<lambda>k. id) [IngressItem twoPatternIngress])
     (Convert (testOptions ''per-pattern'') (\<lambda>k. rev) [IngressItem twoPatternIngress])"
proof -
  have m: "SplitMode (testOptions ''per-host'') \<noteq> ''per-pattern''"
    by (simp add: testOptions_def)
  from Convert_same_up_to_order [of "testOptions ''per-host''" "\<lambda>k. id"
      "[IngressItem twoPatternIngress]" "\<lambda>k. rev"]
    Convert_same_up_to_order [of "testOptions ''per-pattern''" "\<lambda>k. id"
      "[IngressItem twoPatternIngress]" "\<lambda>k. rev"]
  show ?thesis
    using m rearranges_id rearranges_rev by simp
qed

text \<open>
  Two runs on hostnames of two patterns, the runtime visiting the map \<open>groups\<close> in one
  order and in the reverse order: the target resources come out in different orders.
\<close>

theorem Convert_same_up_to_order_counterexample:
  "rearranges id \<and> rearranges rev \<and>
   map_sum id (map Name)
     (Convert (testOptions ''per-pattern'') (\<lambda>k. id) [IngressItem twoPatternIngress]) =
     Inr [''test-ingress-httproute-example-com'', ''test-ingress-httproute-example-org''] \<and>
   map_sum id (map Name)
     (Convert (testOptions ''per-pattern'') (\<lambda>k. rev) [IngressItem twoPatternIngress]) =
     Inr [''test-ingress-httproute-example-org'', ''test-ingress-httproute-example-com'']"
proof -
  have "map_sum id (map Name)
     (Convert (testOptions ''per-pattern'') (\<lambda>k. id) [IngressItem twoPatternIngress]) =
     Inr [''test-ingress-httproute-example-com'', ''test-ingress-httproute-example-org'']"
    by code_simp
  moreover have "map_sum id (map Name)
     (Convert (testOptions ''per-pattern'') (\<lambda>k. rev) [IngressItem twoPatternIngress]) =
     Inr [''test-ingress-httproute-example-org'', ''test-ingress-httproute-example-com'']"
    by code_simp
  ultimately show ?thesis
    using rearranges_id rearranges_rev by simp
qed

subsection \<open>Deduplication of rules\<close>

lemma dedupKey_inject:
  assumes "CHR '':'' \<notin> set n" and "CHR '':'' \<notin> set n'" and "dedupKey p n = dedupKey p' n'"
  shows "p = p' \<and> n = n'"
proof -
  from assms(3) have "rev n @ CHR '':'' # rev p = rev n' @ CHR '':'' # rev p'"
    by (simp add: dedupKey_def) (metis rev_append rev.simps(2) append_assoc append_Cons append_Nil)
  then have "takeWhile (\<lambda>c. c \<noteq> CHR '':'') (rev n @ CHR '':'' # rev p) =
      takeWhile (\<lambda>c. c \<noteq> CHR '':'') (rev n' @ CHR '':'' # rev p')"
    by simp
  moreover have "takeWhile (\<lambda>c. c \<noteq> CHR '':'') (rev m @ CHR '':'' # q) = rev m"
    if "CHR '':'' \<notin> set m" for m q
    using that by (auto simp: takeWhile_tail)
  ultimately have "rev n = rev n'"
    using assms(1,2) by simp
  then have "n = n'" by simp
  with assms(3) show ?thesis by (simp add: dedupKey_def)
qed

lemma convertHTTPRules_count_pairs:
  assumes "paths_have_service paths"
    and "\<forall>path \<in> set paths. CHR '':'' \<notin> set (snd (path_pair path))"
  shows "\<exists>rs. convertHTTPRules ing paths = Inr rs \<and> length rs = card (path_pair ` set paths)"
proof -
  have k: "path_key path = dedupKey (fst (path_pair path)) (snd (path_pair path))"
    if "path \<in> set paths" for path
    using that assms(1)
    by (auto simp: path_key_def path_pair_def paths_have_service_def list_all_iff)
  have "inj_on (\<lambda>pair. dedupKey (fst pair) (snd pair)) (path_pair ` set paths)"
    using assms(2) by (auto simp: inj_on_def dest: dedupKey_inject intro: prod_eqI)
  then have "card ((\<lambda>pair. dedupKey (fst pair) (snd pair)) ` path_pair ` set paths) =
      card (path_pair ` set paths)"
    by (rule card_image)
  moreover have "(\<lambda>pair. dedupKey (fst pair) (snd pair)) ` path_pair ` set paths = path_key ` set paths"
    using k by (auto simp: image_iff)
  ultimately have "card (path_key ` set paths) = card (path_pair ` set paths)"
    by simp
  with convertHTTPRules_returns [OF assms(1), of ing] show ?thesis by simp
qed

lemma convertHTTPRules_repeatedPaths:
  "map_sum id length (convertHTTPRules testIngress repeatedPaths) = Inr 2"
  by code_simp

text \<open>
  Claim C4 at two paths with different pairs of path value and service name. Both pairs
  are formatted to the key \<open>/a:b:c\<close>, and \<open>convertHTTPRules\<close> returns one rule, for the
  first path; the second pair has no rule.
\<close>

theorem convertHTTPRules_key_collision:
  "map path_pair collidingPaths = [(''/a:b'', ''c''), (''/a'', ''b:c'')] \<and>
   map path_key collidingPaths = [''/a:b:c'', ''/a:b:c''] \<and>
   map_sum id (map (map (map_option pm_Value \<circ> match_Path) \<circ> Matches))
     (convertHTTPRules testIngress collidingPaths) = Inr [[Some (Some ''/a:b'')]]"
  by code_simp

subsection \<open>Hostnames and the number of target resources\<close>

lemma count_list_sourceHosts:
  "count_list (sourceHosts ing) h =
     (if h = [] then 0 else length (filter (\<lambda>rule. Host rule = h) (ing_Rules (ing_Spec ing))))"
proof -
  have "count_list (filter (\<lambda>host. host \<noteq> []) (map Host rules)) h =
      (if h = [] then 0 else length (filter (\<lambda>rule. Host rule = h) rules))" for rules
    by (induction rules) auto
  from this [of "ing_Rules (ing_Spec ing)"] show ?thesis by (simp add: sourceHosts_def)
qed

text \<open>
  Claim C7, as the code has it. For a source resource that the single mode converts, the
  hostname list of the one target resource is the list of the non-empty hostnames of the
  source rules in source order, with one entry for every rule: a hostname that \<open>n\<close>
  source rules carry occurs \<open>n\<close> times.
\<close>

theorem convertSingle_hostnames:
  assumes "SplitMode c = ''single''" and "convertible c ing"
  shows "\<exists>route. convertIngress c ro ing = Inr [route] \<and>
           Hostnames (Spec route) = sourceHosts ing \<and>
           (\<forall>h. count_list (Hostnames (Spec route)) h =
                (if h = [] then 0
                 else length (filter (\<lambda>rule. Host rule = h) (ing_Rules (ing_Spec ing)))))"
proof -
  from assms have "first_rule_ok ing" and "default_backend_ok ing"
    by (simp_all add: convertible_def)
  from convertSingle_returns [OF this, of c] obtain rules where
    "convertSingle c ing =
       Inr [newHTTPRoute (ing_Name ing @ ''-httproute'') ing (sourceHosts ing)
              (gatewayNameFor c ing) rules]"
    by blast
  then show ?thesis
    using assms(1) by (simp add: convertIngress_def newHTTPRoute_def count_list_sourceHosts)
qed

theorem convertSingle_hostnames_witness:
  "SplitMode (testOptions ''single'') = ''single'' \<and>
   convertible (testOptions ''single'') repeatedHostIngress \<and>
   (\<exists>route. convertIngress (testOptions ''single'') id repeatedHostIngress = Inr [route] \<and>
      Hostnames (Spec route) = [''app.example.com'', ''app.example.com''])"
proof -
  have m: "SplitMode (testOptions ''single'') = ''single''"
    by (simp add: testOptions_def)
  have v: "convertible (testOptions ''single'') repeatedHostIngress"
    by code_simp
  have s: "sourceHosts repeatedHostIngress = [''app.example.com'', ''app.example.com'']"
    by code_simp
  from convertSingle_hostnames [OF m v, of id] show ?thesis
    using m v s by auto
qed

text \<open>
  Two source rules with the same hostname: the hostname list has it twice.
\<close>

theorem convertSingle_hostnames_counterexample:
  "map_sum id (map (Hostnames \<circ> Spec))
     (Convert (testOptions ''single'') (\<lambda>k. id) [IngressItem repeatedHostIngress]) =
   Inr [[''app.example.com'', ''app.example.com'']]"
  by code_simp

text \<open>
  Claim C6, as the code has it. For a source resource that the split mode converts: the
  single mode returns one target resource; the per-host mode returns one target resource
  for every source rule with a non-empty hostname, so a hostname on two rules counts
  twice; the per-pattern mode returns as many target resources as the non-empty hostnames
  have distinct patterns.
\<close>

theorem split_mode_cardinality:
  assumes "rearranges ro" and "convertible c ing"
  shows "\<exists>routes. convertIngress c ro ing = Inr routes \<and>
           length routes =
             (if SplitMode c = ''single'' then 1
              else if SplitMode c = ''per-host'' then length (sourceHosts ing)
              else card (extractHostPattern ` set (sourceHosts ing)))"
proof -
  from assms obtain routes where r: "convertIngress c ro ing = Inr routes"
    using convertIngress_returns_iff by blast
  have "length routes = 1" if "SplitMode c = ''single''"
  proof -
    from that assms(2) have "first_rule_ok ing" and "default_backend_ok ing"
      by (simp_all add: convertible_def)
    from convertSingle_returns [OF this, of c] r that show ?thesis
      by (auto simp: convertIngress_def)
  qed
  moreover have "length routes = length (sourceHosts ing)"
    if "SplitMode c \<noteq> ''single''" and "SplitMode c = ''per-host''"
    using r that convertPerHost_loop_length [of c ing 0 "[]" "ing_Rules (ing_Spec ing)" routes]
    by (simp add: convertIngress_def convertPerHost_def sourceHosts_def)
  moreover have "length routes = card (extractHostPattern ` set (sourceHosts ing))"
    if "SplitMode c \<noteq> ''single''" and "SplitMode c \<noteq> ''per-host''"
  proof -
    from that assms(2) have m: "SplitMode c = ''per-pattern''"
      by (simp add: convertible_def split: if_splits)
    with r that have "convertPerPattern c ro ing = Inr routes"
      by (simp add: convertIngress_def)
    then have "length routes = length (ro (groupHosts [] (ing_Rules (ing_Spec ing))))"
      by (auto simp: convertPerPattern_eq Let_def split: if_splits sum.splits)
    then show ?thesis
      by (simp add: rearranges_length [OF assms(1)] length_groupHosts)
  qed
  ultimately show ?thesis using r by auto
qed

theorem split_mode_cardinality_witness:
  "rearranges rev \<and>
   convertible (testOptions ''single'') repeatedHostIngress \<and>
   convertible (testOptions ''per-host'') repeatedHostIngress \<and>
   convertible (testOptions ''per-pattern'') twoPatternIngress \<and>
   (\<exists>routes. convertIngress (testOptions ''single'') rev repeatedHostIngress = Inr routes \<and>
      length routes = 1) \<and>
   (\<exists>routes. convertIngress (testOptions ''per-host'') rev repeatedHostIngress = Inr routes \<and>
      length routes = 2) \<and>
   (\<exists>routes. convertIngress (testOptions ''per-pattern'') rev twoPatternIngress = Inr routes \<and>
      length routes = 2)"
proof -
  have v1: "convertible (testOptions ''single'') repeatedHostIngress" by code_simp
  have v2: "convertible (testOptions ''per-host'') repeatedHostIngress" by code_simp
  have v3: "convertible (testOptions ''per-pattern'') twoPatternIngress" by code_simp
  have n2: "length (sourceHosts repeatedHostIngress) = 2" by code_simp
  have n3: "card (extractHostPattern ` set (sourceHosts twoPatternIngress)) = 2" by code_simp
  from split_mode_cardinality [OF rearranges_rev v1]
    split_mode_cardinality [OF rearranges_rev v2]
    split_mode_cardinality [OF rearranges_rev v3]
  show ?thesis
    using rearranges_rev v1 v2 v3 n2 n3 by (simp add: testOptions_def)
qed

text \<open>
  Two source rules with the same hostname: the per-host mode returns two target
  resources for one distinct hostname.
\<close>

theorem split_mode_cardinality_counterexample:
  "map_sum id length
     (Convert (testOptions ''per-host'') (\<lambda>k. id) [IngressItem repeatedHostIngress]) = Inr 2 \<and>
   card (set (sourceHosts repeatedHostIngress)) = 1"
  by code_simp

subsection \<open>The rule of the default backend\<close>



section \<open>Properties of the timeouts\<close>

subsection \<open>Decimal numerals and durations\<close>

lemma digit_nth:
  assumes "k < 10"
  shows "is_digit (''0123456789'' ! k) \<and> digit_val (''0123456789'' ! k) = k"
proof -
  from assms have "k = 0 \<or> k = 1 \<or> k = 2 \<or> k = 3 \<or> k = 4 \<or> k = 5 \<or> k = 6 \<or> k = 7 \<or> k = 8 \<or> k = 9"
    by arith
  then show ?thesis
    by (elim disjE) (simp_all add: is_digit_def digit_val_def)
qed

lemma digits_value_snoc: "digits_value (ds @ [c]) = 10 * digits_value ds + digit_val c"
  by (simp add: digits_value_def)

lemma show_nat_digits:
  "show_nat n \<noteq> [] \<and> list_all is_digit (show_nat n) \<and> digits_value (show_nat n) = n"
proof (induction n rule: show_nat.induct)
  case (1 n)
  show ?case
  proof (cases "n < 10")
    case True
    then show ?thesis
      using digit_nth [of n] by (simp add: show_nat.simps [of n] digits_value_def)
  next
    case False
    have "n mod 10 < 10" by simp
    from digit_nth [OF this] "1.IH" [OF False] False show ?thesis
      by (simp add: show_nat.simps [of n] digits_value_snoc)
  qed
qed

lemma Atoi_digits:
  assumes "ds \<noteq> []" and "list_all is_digit ds"
  shows "Atoi ds =
     (if int (digits_value ds) > maxInt64 then (maxInt64, Some ErrRange)
      else (int (digits_value ds), None))"
proof -
  from assms obtain c cs where ds: "ds = c # cs" and "is_digit c"
    by (cases ds) auto
  then have "c \<noteq> CHR ''-''" and "c \<noteq> CHR ''+''"
    by (auto simp: is_digit_def)
  then show ?thesis
    using assms by (simp add: Atoi_def ds)
qed

lemma Atoi_valid_seconds: "valid_seconds s \<Longrightarrow> Atoi s = (int (digits_value s), None)"
  by (simp add: valid_seconds_def Atoi_digits)

lemma matchDuration_digits:
  assumes "ds \<noteq> []" and "list_all is_digit ds" and "unit \<in> set [''h'', ''m'', ''s'', ''ms'']"
  shows "matchDuration (ds @ unit) = Some (ds, unit)"
proof -
  from assms(3) have "unit \<noteq> [] \<and> \<not> is_digit (hd unit)"
    by (auto simp: is_digit_def)
  then obtain u us where u: "unit = u # us" and "\<not> is_digit u"
    by (cases unit) auto
  with assms(2) have "takeWhile is_digit (ds @ unit) = ds" and "dropWhile is_digit (ds @ unit) = unit"
    by (simp_all add: list_all_iff takeWhile_append2 dropWhile_append2)
  with assms(1,3) show ?thesis
    by (simp add: matchDuration_def Let_def)
qed

lemma wrap64_id: "0 \<le> x \<Longrightarrow> x \<le> maxInt64 \<Longrightarrow> wrap64 x = x"
  unfolding wrap64_def maxInt64_def
  by (simp add: sint_sbintrunc' signed_take_bit_int_eq_self_iff)

lemma go_div_nonneg: "0 \<le> a \<Longrightarrow> 0 < b \<Longrightarrow> go_div a b = a div b"
  by (simp add: go_div_def)

lemma parseDuration_seconds:
  assumes "ds \<noteq> []" and "list_all is_digit ds" and "int (digits_value ds) * 3600 \<le> maxInt64"
  shows "parseDuration (ds @ ''h'') = int (digits_value ds) * 3600"
    and "parseDuration (ds @ ''m'') = int (digits_value ds) * 60"
    and "parseDuration (ds @ ''s'') = int (digits_value ds)"
    and "parseDuration (ds @ ''ms'') = int (digits_value ds) div 1000"
proof -
  have le: "int (digits_value ds) \<le> maxInt64" and le60: "int (digits_value ds) * 60 \<le> maxInt64"
    using assms(3) by simp_all
  then have a: "Atoi ds = (int (digits_value ds), None)"
    using assms(1,2) by (simp add: Atoi_digits)
  show "parseDuration (ds @ ''h'') = int (digits_value ds) * 3600"
    using assms by (simp add: parseDuration_def matchDuration_digits a wrap64_id)
  show "parseDuration (ds @ ''m'') = int (digits_value ds) * 60"
    using assms le60 by (simp add: parseDuration_def matchDuration_digits a wrap64_id)
  show "parseDuration (ds @ ''s'') = int (digits_value ds)"
    using assms by (simp add: parseDuration_def matchDuration_digits a)
  show "parseDuration (ds @ ''ms'') = int (digits_value ds) div 1000"
    using assms by (simp add: parseDuration_def matchDuration_digits a go_div_nonneg)
qed

lemma generated_duration:
  assumes "int n \<le> maxInt64"
  shows "isValidDuration (show_int (int n) @ ''s'')"
    and "parseDuration (show_int (int n) @ ''s'') = int n"
proof -
  have s: "show_int (int n) = show_nat n" by (simp add: show_int_def)
  note d = show_nat_digits [of n]
  from d show "isValidDuration (show_int (int n) @ ''s'')"
    by (simp add: s isValidDuration_def matchDuration_digits)
  from d assms have "Atoi (show_nat n) = (int n, None)"
    by (simp add: Atoi_digits)
  with d show "parseDuration (show_int (int n) @ ''s'') = int n"
    by (simp add: s parseDuration_def matchDuration_digits)
qed

lemma parseDuration_pos_valid: "0 < parseDuration duration \<Longrightarrow> isValidDuration duration"
  by (auto simp: parseDuration_def isValidDuration_def split: option.splits)

lemma orderingError_distinct:
  "orderingError ruleIdx backendRequest request \<noteq> requestFormatError ruleIdx"
  "orderingError ruleIdx backendRequest request \<noteq> backendRequestFormatError ruleIdx"
  by (simp_all add: orderingError_def requestFormatError_def backendRequestFormatError_def)

lemma validateTimeouts_Errors:
  "Errors (validateTimeouts timeouts ruleIdx result) = Errors result @ timeoutErrors timeouts ruleIdx"
  by (cases "Request timeouts"; cases "BackendRequest timeouts")
    (simp_all add: timeoutErrors_def validateTimeouts_def Let_def)

lemma timeoutErrors_both:
  "timeoutErrors \<lparr>Request = Some request, BackendRequest = Some backendRequest\<rparr> ruleIdx =
     (if parseDuration request > 0 \<and> parseDuration backendRequest > 0 \<and>
         parseDuration backendRequest > parseDuration request
      then [orderingError ruleIdx backendRequest request] else []) @
     (if \<not> isValidDuration request then [requestFormatError ruleIdx] else []) @
     (if \<not> isValidDuration backendRequest then [backendRequestFormatError ruleIdx] else [])"
  by (simp add: timeoutErrors_def validateTimeouts_def Let_def)

subsection \<open>Generated and validated timeouts\<close>

text \<open>
  Claim C5. Let the read-timeout and the send-timeout annotation, where present, be valid
  numbers of seconds, and let at least one be present. Then \<open>extractTimeouts\<close> returns
  a value with both fields set to the same duration \<open><N>s\<close>, where \<open>N\<close> is the
  read-timeout if that annotation is present and the send-timeout otherwise. Both fields
  are well-formed durations of \<open>N\<close> seconds, so \<open>backendRequest \<le> request\<close>, and the
  validator reports nothing on them.
\<close>

theorem extractTimeouts_both_fields:
  assumes r: "Annotations ing ''nginx.ingress.kubernetes.io/proxy-read-timeout'' = readTimeout"
    and s: "Annotations ing ''nginx.ingress.kubernetes.io/proxy-send-timeout'' = sendTimeout"
    and present: "readTimeout \<noteq> None \<or> sendTimeout \<noteq> None"
    and vr: "\<forall>x. readTimeout = Some x \<longrightarrow> valid_seconds x"
    and vs: "\<forall>x. sendTimeout = Some x \<longrightarrow> valid_seconds x"
    and n: "n = (case readTimeout of
                   Some x \<Rightarrow> digits_value x
                 | None \<Rightarrow> (case sendTimeout of Some y \<Rightarrow> digits_value y | None \<Rightarrow> 0))"
  shows "\<exists>t request backendRequest.
           extractTimeouts ing = Some t \<and>
           Request t = Some request \<and> BackendRequest t = Some backendRequest \<and>
           request = show_nat n @ ''s'' \<and> backendRequest = show_nat n @ ''s'' \<and>
           isValidDuration request \<and> isValidDuration backendRequest \<and>
           parseDuration request = int n \<and>
           parseDuration backendRequest \<le> parseDuration request \<and>
           timeoutErrors t ruleIdx = []"
proof -
  let ?d = "show_nat n @ ''s''"
  have si: "show_int (int k) = show_nat k" for k
    by (simp add: show_int_def)
  have e: "extractTimeouts ing = Some \<lparr>Request = Some ?d, BackendRequest = Some ?d\<rparr>"
  proof (cases readTimeout)
    case (Some x)
    with vr have "Atoi x = (int (digits_value x), None)"
      by (simp add: Atoi_valid_seconds)
    moreover have "Atoi y = (int (digits_value y), None)" if "sendTimeout = Some y" for y
      using that vs by (simp add: Atoi_valid_seconds)
    ultimately show ?thesis
      using Some n by (cases sendTimeout) (simp_all add: extractTimeouts_def r s Let_def si)
  next
    case None
    with present obtain y where y: "sendTimeout = Some y" by auto
    with vs have "Atoi y = (int (digits_value y), None)"
      by (simp add: Atoi_valid_seconds)
    then show ?thesis
      using None y n by (simp add: extractTimeouts_def r s Let_def si)
  qed
  have "int n \<le> maxInt64"
    using n vr vs present by (auto simp: valid_seconds_def split: option.splits)
  from generated_duration [OF this] have v: "isValidDuration ?d" and p: "parseDuration ?d = int n"
    by (simp_all add: si)
  have "timeoutErrors \<lparr>Request = Some ?d, BackendRequest = Some ?d\<rparr> ruleIdx = []"
    using v by (simp add: timeoutErrors_both)
  with e v p show ?thesis by simp
qed

theorem extractTimeouts_both_fields_witness:
  "valid_seconds ''600'' \<and> valid_seconds ''300'' \<and>
   Annotations annotatedIngress ''nginx.ingress.kubernetes.io/proxy-read-timeout'' = Some ''600'' \<and>
   Annotations annotatedIngress ''nginx.ingress.kubernetes.io/proxy-send-timeout'' = Some ''300'' \<and>
   extractTimeouts annotatedIngress =
     Some \<lparr>Request = Some ''600s'', BackendRequest = Some ''600s''\<rparr> \<and>
   parseDuration ''600s'' = 600"
proof -
  have v: "valid_seconds ''600''" "valid_seconds ''300''"
    by code_simp+
  have r: "Annotations annotatedIngress ''nginx.ingress.kubernetes.io/proxy-read-timeout'' = Some ''600''"
    and s: "Annotations annotatedIngress ''nginx.ingress.kubernetes.io/proxy-send-timeout'' = Some ''300''"
    by (simp_all add: annotatedIngress_def)
  have d: "digits_value ''600'' = 600" and sn: "show_nat 600 = ''600''"
    by code_simp+
  from extractTimeouts_both_fields [OF r s, of 600 0] show ?thesis
    using v r s d sn by auto
qed

text \<open>
  Claim C8, as the code has it. \<open>validateTimeouts\<close> appends its findings to the errors
  of the result. For a value with both fields set, the ordering error is among them
  exactly when both durations are well-formed, the request duration is at least one
  whole second, and the backendRequest duration has more whole seconds than the request
  duration, the seconds being those \<open>parseDuration\<close> computes.
\<close>

theorem validateTimeouts_ordering_error:
  "Errors (validateTimeouts \<lparr>Request = Some request, BackendRequest = Some backendRequest\<rparr>
       ruleIdx result) =
     Errors result @
     timeoutErrors \<lparr>Request = Some request, BackendRequest = Some backendRequest\<rparr> ruleIdx \<and>
   (orderingError ruleIdx backendRequest request \<in>
      set (timeoutErrors \<lparr>Request = Some request, BackendRequest = Some backendRequest\<rparr> ruleIdx)
    \<longleftrightarrow>
      isValidDuration request \<and> isValidDuration backendRequest \<and>
      0 < parseDuration request \<and> parseDuration request < parseDuration backendRequest)"
proof -
  have "0 < parseDuration request \<and> parseDuration request < parseDuration backendRequest \<Longrightarrow>
      isValidDuration request \<and> isValidDuration backendRequest"
    by (simp add: parseDuration_pos_valid)
  then show ?thesis
    using orderingError_distinct [of ruleIdx backendRequest request]
    by (auto simp: validateTimeouts_Errors timeoutErrors_both)
qed

theorem validateTimeouts_ordering_error_witness:
  "timeoutErrors \<lparr>Request = Some ''300s'', BackendRequest = Some ''600s''\<rparr> 0 =
     [''rules[0].timeouts.backendRequest (600s) must be <= request (300s)''] \<and>
   orderingError 0 ''600s'' ''300s'' \<in>
     set (timeoutErrors \<lparr>Request = Some ''300s'', BackendRequest = Some ''600s''\<rparr> 0) \<and>
   isValidDuration ''300s'' \<and> isValidDuration ''600s'' \<and>
   0 < parseDuration ''300s'' \<and> parseDuration ''300s'' < parseDuration ''600s''"
proof -
  have e: "timeoutErrors \<lparr>Request = Some ''300s'', BackendRequest = Some ''600s''\<rparr> 0 =
     [''rules[0].timeouts.backendRequest (600s) must be <= request (300s)'']"
    and o: "orderingError 0 ''600s'' ''300s'' =
     ''rules[0].timeouts.backendRequest (600s) must be <= request (300s)''"
    by code_simp+
  from validateTimeouts_ordering_error [of "''300s''" "''600s''" 0 emptyResult] show ?thesis
    using e o by simp
qed

text \<open>
  A request duration of zero whole seconds, \<open>0s\<close> or \<open>500ms\<close>, with a backendRequest
  duration of five seconds: both are well-formed, the backendRequest duration is the
  longer one, and no error is reported.
\<close>

theorem validateTimeouts_ordering_error_counterexample:
  "isValidDuration ''0s'' \<and> isValidDuration ''500ms'' \<and> isValidDuration ''5s'' \<and>
   parseDuration ''0s'' = 0 \<and> parseDuration ''500ms'' = 0 \<and> parseDuration ''5s'' = 5 \<and>
   timeoutErrors \<lparr>Request = Some ''0s'', BackendRequest = Some ''5s''\<rparr> 0 = [] \<and>
   timeoutErrors \<lparr>Request = Some ''500ms'', BackendRequest = Some ''5s''\<rparr> 0 = []"
  by code_simp

section \<open>Properties of the analyzer\<close>

lemma contains_iff: "contains xs item \<longleftrightarrow> item \<in> set xs"
  by (induction xs) auto

lemma assessReadiness_blocked_iff:
  "assessReadiness_blocked features bs \<longleftrightarrow> (\<exists>b \<in> set bs. b \<in> set features)"
  by (induction bs) (auto simp: contains_iff)

text \<open>
  Claim C9. A feature list that holds CUSTOM_SNIPPET or SERVER_SNIPPET is classified
  MANUAL_REVIEW_REQUIRED whatever the score. Without either tag, a score of at most 10 is
  READY, a score from 11 to 25 is MOSTLY_READY, and a score above 25 is COMPLEX.
\<close>

theorem assessReadiness_classification:
  "assessReadiness score features =
     (if ''CUSTOM_SNIPPET'' \<in> set features \<or> ''SERVER_SNIPPET'' \<in> set features
        then ''MANUAL_REVIEW_REQUIRED''
      else if score \<le> 10 then ''READY''
      else if 11 \<le> score \<and> score \<le> 25 then ''MOSTLY_READY''
      else ''COMPLEX'')"
  by (simp add: assessReadiness_def assessReadiness_blocked_iff blockers_def)

theorem assessReadiness_classification_witness:
  "assessReadiness 10 [''CUSTOM_SNIPPET''] = ''MANUAL_REVIEW_REQUIRED'' \<and>
   assessReadiness 8 [''SERVER_SNIPPET''] = ''MANUAL_REVIEW_REQUIRED'' \<and>
   assessReadiness 10 [''TLS_TERMINATION''] = ''READY'' \<and>
   assessReadiness 11 [''URL_REWRITE'', ''CORS''] = ''MOSTLY_READY'' \<and>
   assessReadiness 25 [''URL_REWRITE'', ''CORS''] = ''MOSTLY_READY'' \<and>
   assessReadiness 26 [''CANARY'', ''URL_REWRITE'', ''MIRRORING''] = ''COMPLEX''"
  using assessReadiness_classification [of 10 "[''CUSTOM_SNIPPET'']"]
    assessReadiness_classification [of 8 "[''SERVER_SNIPPET'']"]
    assessReadiness_classification [of 10 "[''TLS_TERMINATION'']"]
    assessReadiness_classification [of 11 "[''URL_REWRITE'', ''CORS'']"]
    assessReadiness_classification [of 25 "[''URL_REWRITE'', ''CORS'']"]
    assessReadiness_classification [of 26 "[''CANARY'', ''URL_REWRITE'', ''MIRRORING'']"]
  by simp

end
